theory Spec2Isabelle
  imports Complex_Main "HOL-Library.Sublist"
begin

section \<open>Strings\<close>

text \<open>
  A JavaScript string is a sequence of UTF-16 code units. The model covers the code units
  0 to 255 (Latin-1), one \<open>char\<close> each, which holds every character the patterns and
  keywords of \<open>App.tsx\<close> mention.

  \<open>String.prototype.toLowerCase\<close> maps A to Z (65 to 90) and the Latin-1 capitals
  (192 to 222, the multiplication sign 215 apart) to the code unit 32 above, and leaves
  every other code unit of the range alone.
\<close>

definition toLowerCase_char :: "char \<Rightarrow> char" where
  "toLowerCase_char c =
     (let n = (of_char c :: nat)
      in if (65 \<le> n \<and> n \<le> 90) \<or> (192 \<le> n \<and> n \<le> 222 \<and> n \<noteq> 215)
         then char_of (n + 32) else c)"

definition toLowerCase :: "string \<Rightarrow> string" where
  "toLowerCase s = map toLowerCase_char s"

text \<open>
  \<open>String.prototype.includes\<close>: the search string occurs at some position of the
  string, compared code unit by code unit (case-sensitive). The empty search string
  occurs in every string.
\<close>

fun str_includes :: "string \<Rightarrow> string \<Rightarrow> bool" where
  "str_includes [] q = (q = [])"
| "str_includes (c # cs) q = (prefix q (c # cs) \<or> str_includes cs q)"

section \<open>Numbers\<close>

text \<open>
  \<open>Date.now()\<close> and \<open>date_sent\<close> are epoch milliseconds. JavaScript computes on them
  in IEEE double precision; the model computes on integers, which is the same
  computation as long as \<open>Date.now() - dateSent\<close> stays below \<open>2 ^ 53\<close> in absolute
  value (lemma \<open>calculateTimeAgo_ieee_exact\<close>). Beyond that range the doubles round, and
  the model says nothing about the code. A \<open>number\<close> is such an integer or \<open>NaN\<close>,
  which is what \<open>Date.now() - dateSent\<close> gives when \<open>dateSent\<close> is absent (\<open>undefined\<close>)
  or a string that is no number.
\<close>

datatype number = Num int | NaN

fun js_minus :: "number \<Rightarrow> number \<Rightarrow> number" where
  "js_minus (Num a) (Num b) = Num (a - b)"
| "js_minus _ _ = NaN"

text \<open>
  \<open>Math.floor(x / d)\<close> for a divisor \<open>d\<close> that is a positive integer constant of the
  source: the quotient rounded towards minus infinity, and \<open>NaN\<close> for \<open>NaN\<close>. The
  double quotient has the same floor for \<open>\<bar>x\<bar> < 2 ^ 53\<close> (lemma \<open>floor_rd_div\<close>).
\<close>

fun Math_floor_div :: "number \<Rightarrow> int \<Rightarrow> number" where
  "Math_floor_div (Num a) d = Num (a div d)"
| "Math_floor_div NaN d = NaN"

text \<open>\<open>x < c\<close>: every comparison with \<open>NaN\<close> is false.\<close>

fun js_less :: "number \<Rightarrow> int \<Rightarrow> bool" where
  "js_less (Num a) c = (a < c)"
| "js_less NaN c = False"

text \<open>The decimal digits of a natural number, as \<open>Number.prototype.toString\<close> prints them.\<close>

fun digits_of_nat :: "nat \<Rightarrow> string" where
  "digits_of_nat n =
     (if n < 10 then [''0123456789'' ! n]
      else digits_of_nat (n div 10) @ [''0123456789'' ! (n mod 10)])"

declare digits_of_nat.simps [simp del]

fun number_toString :: "number \<Rightarrow> string" where
  "number_toString (Num i) =
     (if i < 0 then CHR ''-'' # digits_of_nat (nat (- i)) else digits_of_nat (nat i))"
| "number_toString NaN = ''NaN''"

section \<open>The message records\<close>

text \<open>
  A record of the SMS list as \<open>JSON.parse\<close> returns it (\<open>message: any\<close>):
  \<open>msg_id\<close> is its \<open>_id\<close> and \<open>msg_body\<close> its \<open>body\<close>. The body and the address are
  strings that may be absent (\<open>None\<close>). \<open>date_sent\<close> is a number of milliseconds, or
  \<open>NaN\<close> for a value that is absent or a string that is neither a number nor a date.

  \<open>SmsMessage\<close> is the interface of that name: \<open>sms_id\<close> is its \<open>id\<close> and
  \<open>sms_type\<close> its \<open>type\<close>; the optional \<open>category\<close> is \<open>None\<close> for \<open>undefined\<close>.
\<close>

record message =
  msg_id :: int
  address :: "string option"
  msg_body :: "string option"
  date_sent :: number

datatype msg_type = debited | credited

record SmsMessage =
  sms_id :: int
  body :: string
  sender :: string
  amount :: string
  date :: string
  timeAgo :: string
  sms_type :: msg_type
  category :: "string option"

text \<open>Reading a property of \<open>undefined\<close> throws a \<open>TypeError\<close>.\<close>

datatype exception = TypeError

section \<open>The amount pattern\<close>

text \<open>
  The fragment of ECMAScript regular expressions that the amount pattern uses: a
  character class, sequence, alternative, the greedy quantifiers \<open>?\<close> and \<open>*\<close>, and
  the capturing group. \<open>r+\<close> is \<open>r\<close> followed by \<open>r*\<close>, and \<open>r{3}\<close> is \<open>r r r\<close>.
\<close>

datatype regex =
    Cls "char \<Rightarrow> bool"
  | Seq regex regex
  | Alt regex regex
  | Opt regex
  | Star regex
  | Grp regex

text \<open>
  The state of a match: the input that is left, and what group 1 captured so far. A
  matcher takes a continuation (the rest of the pattern) and a state, and returns the final
  state or fails (\<open>None\<close>), upon which the caller backtracks.
\<close>

type_synonym mstate = "string \<times> string option"
type_synonym cont = "mstate \<Rightarrow> mstate option"

text \<open>
  The loop of \<open>r*\<close>: greedy, one more iteration first and the continuation when that
  fails. An iteration that consumes nothing is rejected, so every iteration shortens the
  input, and a fuel above the input's length is never used up.
\<close>

fun star_loop :: "(cont \<Rightarrow> mstate \<Rightarrow> mstate option) \<Rightarrow> cont \<Rightarrow> nat \<Rightarrow> mstate \<Rightarrow> mstate option" where
  "star_loop m k 0 st = None"
| "star_loop m k (Suc n) st =
     (case m (\<lambda>st'. if length (fst st') < length (fst st) then star_loop m k n st' else None) st of
        Some r \<Rightarrow> Some r
      | None \<Rightarrow> k st)"

primrec matcher :: "regex \<Rightarrow> cont \<Rightarrow> mstate \<Rightarrow> mstate option" where
  "matcher (Cls P) k st =
     (case fst st of
        [] \<Rightarrow> None
      | c # cs \<Rightarrow> if P c then k (cs, snd st) else None)"
| "matcher (Seq r1 r2) k st = matcher r1 (matcher r2 k) st"
| "matcher (Alt r1 r2) k st =
     (case matcher r1 k st of Some r \<Rightarrow> Some r | None \<Rightarrow> matcher r2 k st)"
| "matcher (Opt r) k st =
     (case matcher r (\<lambda>st'. if length (fst st') < length (fst st) then k st' else None) st of
        Some r \<Rightarrow> Some r
      | None \<Rightarrow> k st)"
| "matcher (Star r) k st = star_loop (matcher r) k (Suc (length (fst st))) st"
| "matcher (Grp r) k st =
     matcher r (\<lambda>st'. k (fst st', Some (take (length (fst st) - length (fst st')) (fst st)))) st"

text \<open>
  \<open>RegExp.prototype.exec\<close> without the global flag: the match is tried at position 0,
  then 1, and so on up to the end of the string; the first position that matches wins.
\<close>

fun regex_exec :: "regex \<Rightarrow> string \<Rightarrow> mstate option" where
  "regex_exec r [] = matcher r Some ([], None)"
| "regex_exec r (c # cs) =
     (case matcher r Some (c # cs, None) of
        Some st \<Rightarrow> Some st
      | None \<Rightarrow> regex_exec r cs)"

text \<open>
  With the flag \<open>i\<close> two characters match when their canonical forms are equal. The
  canonical form of a to z is the capital letter; no code unit from 128 on has an ASCII
  canonical form, so against the ASCII letters of a pattern they compare as themselves.
\<close>

definition canonicalize :: "char \<Rightarrow> char" where
  "canonicalize c =
     (let n = (of_char c :: nat) in if 97 \<le> n \<and> n \<le> 122 then char_of (n - 32) else c)"

definition chr_i :: "char \<Rightarrow> regex" where
  "chr_i c = Cls (\<lambda>x. canonicalize x = canonicalize c)"

definition chr :: "char \<Rightarrow> regex" where
  "chr c = Cls (\<lambda>x. x = c)"

text \<open>\<open>\d\<close> is 0 to 9.\<close>

definition is_digit :: "char \<Rightarrow> bool" where
  "is_digit c = (c \<in> set ''0123456789'')"

text \<open>
  \<open>\s\<close>: tab, line feed, vertical tab, form feed, carriage return, space and the
  no-break space are the white space and line terminators below 256.
\<close>

definition is_space :: "char \<Rightarrow> bool" where
  "is_space c = (c \<in> set [CHR 0x09, CHR 0x0A, CHR 0x0B, CHR 0x0C, CHR 0x0D, CHR '' '', CHR 0xA0])"

definition plus :: "regex \<Rightarrow> regex" where
  "plus r = Seq r (Star r)"

text \<open>\<open>INR\<close> and \<open>Rs\.?\<close>, under the flag \<open>i\<close>, and \<open>(?:INR|Rs\.?)\<close>\<close>

definition inr_rx :: regex where
  "inr_rx = Seq (chr_i CHR ''I'') (Seq (chr_i CHR ''N'') (chr_i CHR ''R''))"

definition rs_rx :: regex where
  "rs_rx = Seq (chr_i CHR ''R'') (Seq (chr_i CHR ''s'') (Opt (chr CHR ''.'')))"

definition currency_rx :: regex where
  "currency_rx = Alt inr_rx rs_rx"

text \<open>\<open>\d+\<close>, \<open>,\d{3}\<close> and \<open>\.\d+\<close>\<close>

definition digits_rx :: regex where
  "digits_rx = plus (Cls is_digit)"

definition thousands_rx :: regex where
  "thousands_rx = Seq (chr CHR '','') (Seq (Cls is_digit) (Seq (Cls is_digit) (Cls is_digit)))"

definition fraction_rx :: regex where
  "fraction_rx = Seq (chr CHR ''.'') digits_rx"

text \<open>\<open>\d+(?:,\d{3})*(?:\.\d+)?\<close>\<close>

definition numeral_rx :: regex where
  "numeral_rx = Seq digits_rx (Seq (Star thousands_rx) (Opt fraction_rx))"

text \<open>\<open>/(?:INR|Rs\.?)\s?(\d+(?:,\d{3})*(?:\.\d+)?)/i\<close>\<close>

definition amount_rx :: regex where
  "amount_rx = Seq currency_rx (Seq (Opt (Cls is_space)) (Grp numeral_rx))"

text \<open>
  \<open>message.body.match(...)\<close>: \<open>None\<close> is \<open>null\<close>; otherwise the value is element 1 of
  the match array, the text group 1 captured (\<open>None\<close> for a group that took no part).
\<close>

definition amountMatch :: "string \<Rightarrow> string option option" where
  "amountMatch b = map_option snd (regex_exec amount_rx b)"

text \<open>
  Element 1 of the match array. A group that took no part in the match reads as
  \<open>undefined\<close>; group 1 of the amount pattern takes part in every match (lemma
  \<open>amountMatch_group\<close>), so the second equation is never used.
\<close>

fun group_text :: "string option \<Rightarrow> string" where
  "group_text (Some a) = a"
| "group_text None = []"

section \<open>Classification\<close>

definition extractCategory :: "string \<Rightarrow> string option" where
  "extractCategory messageBody =
     (if str_includes (toLowerCase messageBody) ''grocery'' then Some ''Grocery''
      else if str_includes (toLowerCase messageBody) ''dining'' then Some ''Dining''
      else if str_includes (toLowerCase messageBody) ''shopping'' then Some ''Shopping''
      else None)"

text \<open>\<open>now\<close> is the reading of \<open>Date.now()\<close>.\<close>

definition calculateTimeAgo :: "int \<Rightarrow> number \<Rightarrow> string" where
  "calculateTimeAgo now dateSent =
     (let diffInMinutes = Math_floor_div (js_minus (Num now) dateSent) (1000 * 60)
      in if js_less diffInMinutes 60 then number_toString diffInMinutes @ '' minute(s) ago''
         else
           let diffInHours = Math_floor_div diffInMinutes 60
           in if js_less diffInHours 24 then number_toString diffInHours @ '' hour(s) ago''
              else number_toString (Math_floor_div diffInHours 24) @ '' day(s) ago'')"

text \<open>
  \<open>new Date(t).toLocaleDateString()\<close>: the text depends on the locale of the device, so
  the formatting of a valid time value is a parameter. A time value that is \<open>NaN\<close> or
  more than 8.64e15 milliseconds from the epoch is no date and prints as
  \<open>Invalid Date\<close>.
\<close>

definition toLocaleDateString :: "(int \<Rightarrow> string) \<Rightarrow> number \<Rightarrow> string" where
  "toLocaleDateString fmt t =
     (case t of
        NaN \<Rightarrow> ''Invalid Date''
      | Num i \<Rightarrow> if \<bar>i\<bar> \<le> 8640000000000000 then fmt i else ''Invalid Date'')"

text \<open>\<open>message.address || 'Unknown'\<close>: an absent and an empty address are both falsy.\<close>

definition address_or_Unknown :: "string option \<Rightarrow> string" where
  "address_or_Unknown a = (case a of None \<Rightarrow> ''Unknown'' | Some s \<Rightarrow> if s = [] then ''Unknown'' else s)"

text \<open>\<open>amountMatch ? amountMatch[1] : 'N/A'\<close>\<close>

definition amount_of :: "string \<Rightarrow> string" where
  "amount_of b = (case amountMatch b of None \<Rightarrow> ''N/A'' | Some g \<Rightarrow> group_text g)"

text \<open>\<open>message.body.toLowerCase().includes('debited') ? 'debited' : 'credited'\<close>\<close>

definition type_of :: "string \<Rightarrow> msg_type" where
  "type_of b = (if str_includes (toLowerCase b) ''debited'' then debited else credited)"

definition parseMessageDetails :: "int \<Rightarrow> (int \<Rightarrow> string) \<Rightarrow> message \<Rightarrow> exception + SmsMessage" where
  "parseMessageDetails now fmt message =
     (case msg_body message of
        None \<Rightarrow> Inl TypeError
      | Some b \<Rightarrow>
          Inr \<lparr> sms_id = msg_id message,
                body = b,
                sender = address_or_Unknown (address message),
                amount = amount_of b,
                date = toLocaleDateString fmt (date_sent message),
                timeAgo = calculateTimeAgo now (date_sent message),
                sms_type = type_of b,
                category = extractCategory b \<rparr>)"

text \<open>
  \<open>Array.prototype.filter\<close> and \<open>Array.prototype.map\<close> with a callback that may throw:
  the elements are visited in order and the first exception ends the call.
\<close>

fun Array_filter :: "('a \<Rightarrow> exception + bool) \<Rightarrow> 'a list \<Rightarrow> exception + 'a list" where
  "Array_filter p [] = Inr []"
| "Array_filter p (x # xs) =
     (case p x of
        Inl e \<Rightarrow> Inl e
      | Inr keep \<Rightarrow>
          (case Array_filter p xs of
             Inl e \<Rightarrow> Inl e
           | Inr ys \<Rightarrow> Inr (if keep then x # ys else ys)))"

fun Array_map :: "('a \<Rightarrow> exception + 'b) \<Rightarrow> 'a list \<Rightarrow> exception + 'b list" where
  "Array_map f [] = Inr []"
| "Array_map f (x # xs) =
     (case f x of
        Inl e \<Rightarrow> Inl e
      | Inr y \<Rightarrow> (case Array_map f xs of Inl e \<Rightarrow> Inl e | Inr ys \<Rightarrow> Inr (y # ys)))"

text \<open>\<open>msg.body.includes('debited') || msg.body.includes('credited')\<close>\<close>

definition retained :: "message \<Rightarrow> exception + bool" where
  "retained msg =
     (case msg_body msg of
        None \<Rightarrow> Inl TypeError
      | Some b \<Rightarrow> Inr (str_includes b ''debited'' \<or> str_includes b ''credited''))"

text \<open>
  The value of \<open>parsedMessages\<close> in the success callback, for the array that
  \<open>JSON.parse(smsList)\<close> returned.
\<close>

definition parsedMessages :: "int \<Rightarrow> (int \<Rightarrow> string) \<Rightarrow> message list \<Rightarrow> exception + SmsMessage list" where
  "parsedMessages now fmt smsList =
     (case Array_filter retained smsList of
        Inl e \<Rightarrow> Inl e
      | Inr kept \<Rightarrow> Array_map (parseMessageDetails now fmt) kept)"

section \<open>The component's state\<close>

record app_state =
  messages :: "SmsMessage list"
  loading :: bool
  console_error :: "(string \<times> string) list"

text \<open>\<open>SmsAndroid.list\<close> calls the failure callback or the success callback.\<close>

datatype list_outcome = Failure string | Success int "message list"

text \<open>
  One run of \<open>fetchSmsMessages\<close>: the state after it, and the exception that left the
  callback, if any.
\<close>

definition fetchSmsMessages :: "int \<Rightarrow> (int \<Rightarrow> string) \<Rightarrow> list_outcome \<Rightarrow> app_state \<Rightarrow> app_state \<times> exception option" where
  "fetchSmsMessages now fmt outcome st =
     (let st1 = st\<lparr>loading := True\<rparr>
      in case outcome of
           Failure fail \<Rightarrow>
             (st1\<lparr>console_error := console_error st1 @ [(''Failed to read SMS:'', fail)],
                  loading := False\<rparr>, None)
         | Success count smsList \<Rightarrow>
             (case parsedMessages now fmt smsList of
                Inl e \<Rightarrow> (st1, Some e)
              | Inr ms \<Rightarrow> (st1\<lparr>messages := ms, loading := False\<rparr>, None)))"

section \<open>The view\<close>

datatype filter_mode = F_all | F_credited | F_debited

fun filter_str :: "filter_mode \<Rightarrow> string" where
  "filter_str F_all = ''all''"
| "filter_str F_credited = ''credited''"
| "filter_str F_debited = ''debited''"

fun type_str :: "msg_type \<Rightarrow> string" where
  "type_str debited = ''debited''"
| "type_str credited = ''credited''"

definition filteredMessages :: "SmsMessage list \<Rightarrow> filter_mode \<Rightarrow> string \<Rightarrow> SmsMessage list" where
  "filteredMessages msgs flt searchQuery =
     filter (\<lambda>msg. let query = toLowerCase searchQuery
                   in str_includes (toLowerCase (body msg)) query \<or> str_includes (toLowerCase (sender msg)) query)
       (filter (\<lambda>msg. if filter_str flt = ''all'' then True else type_str (sms_type msg) = filter_str flt) msgs)"

section \<open>Notions of the specification\<close>

text \<open>
  The integer floor of the elapsed time counted in a unit of \<open>unit_ms\<close> milliseconds
  (60000 for minutes, 3600000 for hours, 86400000 for days).
\<close>

definition elapsed_units :: "int \<Rightarrow> int \<Rightarrow> int \<Rightarrow> int" where
  "elapsed_units now t unit_ms = \<lfloor>(of_int (now - t) :: real) / of_int unit_ms\<rfloor>"

text \<open>
  What the proofs need of IEEE rounding to nearest, \<open>rd\<close>, in double precision: an
  integer up to \<open>2 ^ 53\<close> in absolute value is a double, and between \<open>2 ^ -20\<close> and
  \<open>2 ^ 53\<close> the relative error of rounding is at most \<open>2 ^ -53\<close>.
\<close>

definition ieee_rounding :: "(real \<Rightarrow> real) \<Rightarrow> bool" where
  "ieee_rounding rd =
     ((\<forall>n::int. \<bar>n\<bar> \<le> 2 ^ 53 \<longrightarrow> rd (of_int n) = of_int n)
      \<and> (\<forall>x. 1 / 2 ^ 20 \<le> \<bar>x\<bar> \<and> \<bar>x\<bar> \<le> 2 ^ 53 \<longrightarrow> \<bar>rd x - x\<bar> \<le> \<bar>x\<bar> / 2 ^ 53))"

text \<open>
  \<open>calculateTimeAgo\<close> as JavaScript computes it on two integer-valued doubles: every
  subtraction and division is rounded by \<open>rd\<close>, and \<open>Math.floor\<close> of a double is exact.
\<close>

definition calculateTimeAgo_ieee :: "(real \<Rightarrow> real) \<Rightarrow> int \<Rightarrow> int \<Rightarrow> string" where
  "calculateTimeAgo_ieee rd now dateSent =
     (let diffInMinutes = \<lfloor>rd (rd (of_int now - of_int dateSent) / (1000 * 60))\<rfloor>
      in if diffInMinutes < 60 then number_toString (Num diffInMinutes) @ '' minute(s) ago''
         else
           let diffInHours = \<lfloor>rd (of_int diffInMinutes / 60)\<rfloor>
           in if diffInHours < 24 then number_toString (Num diffInHours) @ '' hour(s) ago''
              else number_toString (Num \<lfloor>rd (of_int diffInHours / 24)\<rfloor>) @ '' day(s) ago'')"

text \<open>The number a string of decimal digits denotes.\<close>

definition digit_value :: "char \<Rightarrow> nat" where
  "digit_value c = (of_char c :: nat) - 48"

definition decimal_value :: "string \<Rightarrow> nat" where
  "decimal_value s = foldl (\<lambda>a c. 10 * a + digit_value c) 0 s"

text \<open>
  \<open>q\<close> is a case-insensitive substring of \<open>s\<close>: some contiguous piece of \<open>s\<close> equals
  \<open>q\<close> up to the case of its letters.
\<close>

definition ci_substring :: "string \<Rightarrow> string \<Rightarrow> bool" where
  "ci_substring q s = (\<exists>u. sublist u s \<and> toLowerCase u = toLowerCase q)"

text \<open>The direction predicate and the search predicate of the view.\<close>

definition direction_ok :: "filter_mode \<Rightarrow> SmsMessage \<Rightarrow> bool" where
  "direction_ok flt msg =
     (case flt of
        F_all \<Rightarrow> True
      | F_debited \<Rightarrow> sms_type msg = debited
      | F_credited \<Rightarrow> sms_type msg = credited)"

definition search_ok :: "string \<Rightarrow> SmsMessage \<Rightarrow> bool" where
  "search_ok q msg = (ci_substring q (body msg) \<or> ci_substring q (sender msg))"

text \<open>The body is present and has \<open>debited\<close> or \<open>credited\<close> as a case-sensitive substring.\<close>

definition has_keyword :: "message \<Rightarrow> bool" where
  "has_keyword m = (\<exists>b. msg_body m = Some b \<and> (sublist ''debited'' b \<or> sublist ''credited'' b))"

text \<open>
  The words a pattern matches, whatever surrounds them: the usual language of a regular
  expression. A group matches what its body matches.
\<close>

inductive_set star :: "string set \<Rightarrow> string set" for A :: "string set" where
  star_nil: "[] \<in> star A"
| star_app: "u \<in> A \<Longrightarrow> v \<in> star A \<Longrightarrow> u @ v \<in> star A"

fun lang :: "regex \<Rightarrow> string set" where
  "lang (Cls P) = {[c] | c. P c}"
| "lang (Seq r1 r2) = {u @ v | u v. u \<in> lang r1 \<and> v \<in> lang r2}"
| "lang (Alt r1 r2) = lang r1 \<union> lang r2"
| "lang (Opt r) = insert [] (lang r)"
| "lang (Star r) = star (lang r)"
| "lang (Grp r) = lang r"

text \<open>
  The amount pattern in the words of the specification. A currency marker is INR or Rs
  or Rs followed by a period, in any letter case; the optional white space is at most one
  white-space character; a numeral is a non-empty string of digits, then any number of
  thousands groups (a comma and exactly three digits), then optionally a decimal fraction
  (a period and a non-empty string of digits). A body has a currency marker when INR or
  Rs occurs in it in some letter case.
\<close>

definition is_currency_marker :: "string \<Rightarrow> bool" where
  "is_currency_marker mk =
     (toLowerCase mk = ''inr'' \<or> toLowerCase mk = ''rs'' \<or> toLowerCase mk = ''rs.'')"


definition optional_space :: "string \<Rightarrow> bool" where
  "optional_space ws = (ws = [] \<or> (\<exists>c. ws = [c] \<and> is_space c))"

definition digit_string :: "string \<Rightarrow> bool" where
  "digit_string ds = (ds \<noteq> [] \<and> (\<forall>c\<in>set ds. is_digit c))"

definition thousands_group :: "string \<Rightarrow> bool" where
  "thousands_group g = (\<exists>d. g = CHR '','' # d \<and> length d = 3 \<and> (\<forall>c\<in>set d. is_digit c))"

definition decimal_fraction :: "string \<Rightarrow> bool" where
  "decimal_fraction f = (\<exists>d. f = CHR ''.'' # d \<and> digit_string d)"

definition amount_numeral :: "string \<Rightarrow> bool" where
  "amount_numeral n =
     (\<exists>ds gs f. n = ds @ concat gs @ f \<and> digit_string ds \<and> (\<forall>g\<in>set gs. thousands_group g)
        \<and> (f = [] \<or> decimal_fraction f))"

section \<open>Example records\<close>

definition example_debit :: SmsMessage where
  "example_debit = \<lparr>sms_id = 1, body = ''Rs.500 debited from a/c'', sender = ''BANK'', amount = ''500'',
     date = ''1/1/2024'', timeAgo = ''2 minute(s) ago'', sms_type = debited, category = None\<rparr>"

definition example_credit :: SmsMessage where
  "example_credit = \<lparr>sms_id = 2, body = ''INR 20 credited'', sender = ''UPI'', amount = ''20'',
     date = ''1/1/2024'', timeAgo = ''3 hour(s) ago'', sms_type = credited, category = None\<rparr>"

definition raw_debit :: message where
  "raw_debit = \<lparr>msg_id = 1, address = Some ''BANK'', msg_body = Some ''Rs.500 debited from a/c'',
     date_sent = Num 1699999880000\<rparr>"

definition raw_other :: message where
  "raw_other = \<lparr>msg_id = 2, address = Some ''FRIEND'', msg_body = Some ''Rs.100 Debited from a/c'',
     date_sent = Num 1699999880000\<rparr>"

definition raw_credit :: message where
  "raw_credit = \<lparr>msg_id = 3, address = None, msg_body = Some ''INR 1,000 credited for dining'',
     date_sent = NaN\<rparr>"

definition blank_date :: "int \<Rightarrow> string" where
  "blank_date t = []"

definition raw_no_body :: message where
  "raw_no_body = \<lparr>msg_id = 4, address = Some ''BANK'', msg_body = None, date_sent = Num 1699999880000\<rparr>"

section \<open>Strings, arrays and the retention filter\<close>

lemma str_includes_sublist: "str_includes s q \<longleftrightarrow> sublist q s"
  by (induction s) (simp_all add: sublist_Cons_right)

lemma toLowerCase_append: "toLowerCase (a @ b) = toLowerCase a @ toLowerCase b"
  by (simp add: toLowerCase_def)

lemma map_eq_append_split:
  "map f s = a @ b \<Longrightarrow> \<exists>us vs. s = us @ vs \<and> map f us = a \<and> map f vs = b"
  by (metis map_eq_append_conv)

lemma sublist_toLowerCase: "sublist u s \<Longrightarrow> sublist (toLowerCase u) (toLowerCase s)"
proof -
  assume "sublist u s"
  then obtain ps ss where "s = ps @ u @ ss"
    by (auto simp: sublist_def)
  then have "toLowerCase s = toLowerCase ps @ toLowerCase u @ toLowerCase ss"
    by (simp add: toLowerCase_append)
  then show ?thesis
    unfolding sublist_def by blast
qed

lemma ci_substring_code: "ci_substring q s \<longleftrightarrow> str_includes (toLowerCase s) (toLowerCase q)"
proof
  assume "ci_substring q s"
  then obtain u where "sublist u s" "toLowerCase u = toLowerCase q"
    by (auto simp: ci_substring_def)
  then show "str_includes (toLowerCase s) (toLowerCase q)"
    using sublist_toLowerCase [of u s] by (simp add: str_includes_sublist)
next
  assume "str_includes (toLowerCase s) (toLowerCase q)"
  then obtain ps ss where "map toLowerCase_char s = ps @ map toLowerCase_char q @ ss"
    by (auto simp: str_includes_sublist sublist_def toLowerCase_def)
  then obtain us vs where 1: "s = us @ vs" "map toLowerCase_char vs = map toLowerCase_char q @ ss"
    using map_eq_append_split by blast
  then obtain u ws where 2: "vs = u @ ws" "map toLowerCase_char u = map toLowerCase_char q"
    using map_eq_append_split by blast
  from 1 2 have "s = us @ u @ ws" by simp
  with 2 show "ci_substring q s"
    unfolding ci_substring_def sublist_def toLowerCase_def by blast
qed

lemma ci_substring_empty: "ci_substring [] s"
  by (simp add: ci_substring_def toLowerCase_def)

lemma Array_filter_ok:
  "(\<forall>m\<in>set xs. \<exists>k. p m = Inr k) \<Longrightarrow> Array_filter p xs = Inr (filter (\<lambda>m. p m = Inr True) xs)"
  by (induction xs) auto

lemma Array_filter_Inr:
  "Array_filter p xs = Inr ys \<Longrightarrow>
     (\<forall>m\<in>set xs. \<exists>k. p m = Inr k) \<and> ys = filter (\<lambda>m. p m = Inr True) xs"
  by (induction xs arbitrary: ys) (auto split: sum.splits if_splits)

lemma Array_map_Inr: "Array_map f xs = Inr ys \<Longrightarrow> map f xs = map Inr ys"
  by (induction xs arbitrary: ys) (auto split: sum.splits)

lemma Array_map_total: "(\<forall>x\<in>set xs. \<exists>y. f x = Inr y) \<Longrightarrow> \<exists>ys. Array_map f xs = Inr ys"
  by (induction xs) auto

lemma retained_True: "retained m = Inr True \<longleftrightarrow> has_keyword m"
  by (auto simp: retained_def has_keyword_def str_includes_sublist split: option.splits)

lemma retained_Inr: "(\<exists>k. retained m = Inr k) \<longleftrightarrow> msg_body m \<noteq> None"
  by (auto simp: retained_def split: option.splits)

lemma parse_Inr:
  "msg_body m = Some b \<Longrightarrow> \<exists>r. parseMessageDetails now fmt m = Inr r \<and> body r = b"
  by (simp add: parseMessageDetails_def)

lemma parsedMessages_kept:
  assumes "\<forall>m\<in>set smsList. msg_body m \<noteq> None"
  shows "\<exists>out. Array_filter retained smsList = Inr (filter has_keyword smsList)
           \<and> parsedMessages now fmt smsList = Inr out
           \<and> map Inr out = map (parseMessageDetails now fmt) (filter has_keyword smsList)"
proof -
  let ?kept = "filter has_keyword smsList"
  have k: "Array_filter retained smsList = Inr ?kept"
    using assms Array_filter_ok [of smsList retained] by (simp add: retained_Inr retained_True)
  have "\<forall>m\<in>set ?kept. \<exists>r. parseMessageDetails now fmt m = Inr r"
    using assms parse_Inr by fastforce
  then obtain out where o: "Array_map (parseMessageDetails now fmt) ?kept = Inr out"
    using Array_map_total by blast
  then have "map (parseMessageDetails now fmt) ?kept = map Inr out"
    by (rule Array_map_Inr)
  with k o show ?thesis by (simp add: parsedMessages_def)
qed

section \<open>Relative age\<close>

lemma elapsed_units_div: "0 < u \<Longrightarrow> elapsed_units now t u = (now - t) div u"
  unfolding elapsed_units_def by (rule floor_divide_of_int_eq)

lemma calculateTimeAgo_Num:
  "calculateTimeAgo now (Num t) =
     (if (now - t) div 60000 < 60
        then number_toString (Num ((now - t) div 60000)) @ '' minute(s) ago''
      else if (now - t) div 3600000 < 24
        then number_toString (Num ((now - t) div 3600000)) @ '' hour(s) ago''
      else number_toString (Num ((now - t) div 86400000)) @ '' day(s) ago'')"
proof -
  have h: "(now - t) div 60000 div 60 = (now - t) div 3600000"
    by (simp add: zdiv_zmult2_eq [symmetric])
  have d: "(now - t) div 3600000 div 24 = (now - t) div 86400000"
    by (simp add: zdiv_zmult2_eq [symmetric])
  show ?thesis
    by (simp add: calculateTimeAgo_def Let_def h d del: number_toString.simps)
qed

lemma calculateTimeAgo_NaN: "calculateTimeAgo now NaN = ''NaN day(s) ago''"
  by (simp add: calculateTimeAgo_def)

lemma digit_value_below_ten:
  "\<forall>n<Suc (Suc (Suc (Suc (Suc (Suc (Suc (Suc (Suc (Suc 0))))))))). digit_value (''0123456789'' ! n) = n"
  unfolding All_less_Suc by (simp add: digit_value_def)

lemma digit_value_nth: "n < 10 \<Longrightarrow> digit_value (''0123456789'' ! n) = n"
  using digit_value_below_ten by (simp add: eval_nat_numeral)

lemma decimal_value_snoc: "decimal_value (s @ [c]) = 10 * decimal_value s + digit_value c"
  by (simp add: decimal_value_def)

text \<open>\<open>digits_of_nat\<close> prints a number in decimal: reading the digits back gives the number.\<close>

lemma decimal_value_digits_of_nat: "decimal_value (digits_of_nat n) = n"
proof (induction n rule: digits_of_nat.induct)
  case (1 n)
  show ?case
  proof (cases "n < 10")
    case True
    then show ?thesis
      by (subst digits_of_nat.simps) (simp add: decimal_value_def digit_value_nth del: nth_Cons_numeral)
  next
    case False
    with 1 have "decimal_value (digits_of_nat (n div 10)) = n div 10" by simp
    with False show ?thesis
      by (subst digits_of_nat.simps) (simp add: decimal_value_snoc digit_value_nth del: nth_Cons_numeral)
  qed
qed

lemma number_toString_2: "number_toString (Num 2) = ''2''"
  by code_simp

text \<open>
  The integer model agrees with the computation in doubles while the elapsed time stays
  below \<open>2 ^ 53\<close> milliseconds in absolute value.
\<close>

lemma abs_div_le:
  fixes a c :: int
  assumes "0 < c"
  shows "\<bar>a div c\<bar> \<le> \<bar>a\<bar>"
proof (cases "0 \<le> a")
  case True
  with assms have "0 \<le> a div c" by (simp add: pos_imp_zdiv_nonneg_iff)
  moreover from True assms have "a div c \<le> a div 1" by (intro zdiv_mono2) simp_all
  ultimately show ?thesis using True by simp
next
  case False
  then have neg: "a < 0" by simp
  with assms have "a div c < 0" by (simp add: pos_imp_zdiv_neg_iff)
  moreover from neg assms have "a div 1 \<le> a div c" by (intro zdiv_mono2_neg) simp_all
  ultimately show ?thesis using neg by simp
qed

lemma floor_rd_div:
  fixes a c :: int
  assumes rd: "ieee_rounding rd" and a: "\<bar>a\<bar> < 2 ^ 53" and c: "0 < c" "c \<le> 2 ^ 20"
  shows "\<lfloor>rd (of_int a / of_int c)\<rfloor> = a div c"
proof -
  define j where "j = a div c"
  define r where "r = a mod c"
  define x :: real where "x = of_int a / of_int c"
  have decomp: "a = j * c + r" and r: "0 \<le> r" "r < c"
    using c(1) by (simp_all add: j_def r_def)
  have cr: "0 < (of_int c :: real)" using c(1) by simp
  have x: "x = of_int j + of_int r / of_int c"
    unfolding x_def using cr by (simp add: decomp field_simps)
  show ?thesis
  proof (cases "r = 0")
    case True
    have "\<bar>j\<bar> \<le> \<bar>a\<bar>" unfolding j_def using c(1) by (rule abs_div_le)
    with a have "\<bar>j\<bar> \<le> 2 ^ 53" by simp
    with rd have "rd (of_int j) = of_int j" by (simp add: ieee_rounding_def)
    with True x show ?thesis by (simp add: x_def [symmetric] j_def)
  next
    case False
    with r have r1: "1 \<le> r" by simp
    have ax: "\<bar>x\<bar> = of_int \<bar>a\<bar> / of_int c"
      unfolding x_def using cr by (simp add: abs_divide)
    from False decomp have "a \<noteq> 0"
      using c(1) r by (metis mod_0 r_def)
    then have "1 \<le> \<bar>a\<bar>" by simp
    then have "1 / of_int c \<le> \<bar>x\<bar>"
      unfolding ax using cr by (simp add: divide_le_cancel)
    moreover have "1 / 2 ^ 20 \<le> 1 / (of_int c :: real)"
    proof -
      have "(of_int c :: real) \<le> of_int (2 ^ 20)" using c(2) by (simp only: of_int_le_iff)
      then show ?thesis using cr by (simp add: frac_le)
    qed
    ultimately have lo: "1 / 2 ^ 20 \<le> \<bar>x\<bar>" by simp
    have "(of_int \<bar>a\<bar> :: real) < of_int (2 ^ 53)" using a by (simp only: of_int_less_iff)
    then have lt: "(of_int \<bar>a\<bar> :: real) < 2 ^ 53" by simp
    have "\<bar>x\<bar> \<le> of_int \<bar>a\<bar>"
    proof -
      have "1 \<le> (of_int c :: real)" using c(1) by simp
      then have "of_int \<bar>a\<bar> / of_int c \<le> (of_int \<bar>a\<bar> :: real) / 1"
        by (intro divide_left_mono) simp_all
      then show ?thesis by (simp add: ax)
    qed
    with lt have hi: "\<bar>x\<bar> \<le> 2 ^ 53" by simp
    from rd lo hi have err: "\<bar>rd x - x\<bar> \<le> \<bar>x\<bar> / 2 ^ 53"
      by (simp add: ieee_rounding_def)
    have "\<bar>x\<bar> / 2 ^ 53 < 1 / of_int c"
    proof -
      have "\<bar>x\<bar> / 2 ^ 53 = (of_int \<bar>a\<bar> / 2 ^ 53) / of_int c"
        by (simp add: ax)
      also have "\<dots> < 1 / of_int c"
        using lt cr by (intro divide_strict_right_mono) simp_all
      finally show ?thesis .
    qed
    with err have e: "\<bar>rd x - x\<bar> < 1 / of_int c" by simp
    have rc: "1 / of_int c \<le> of_int r / (of_int c :: real)"
      using r1 cr by (simp add: divide_le_cancel)
    have rc': "of_int r / (of_int c :: real) + 1 / of_int c \<le> 1"
    proof -
      have "of_int r + 1 \<le> (of_int c :: real)"
        using r(2) by (metis of_int_1 of_int_add of_int_le_iff zless_imp_add1_zle)
      then have "(of_int r + 1) / of_int c \<le> (1 :: real)"
        using cr by simp
      then show ?thesis by (simp add: add_divide_distrib)
    qed
    from e have "x - 1 / of_int c < rd x" "rd x < x + 1 / of_int c" by (simp_all add: abs_less_iff)
    with x rc rc' have "of_int j \<le> rd x" "rd x < of_int j + 1" by simp_all
    then have "\<lfloor>rd x\<rfloor> = j" by (simp add: floor_unique)
    then show ?thesis by (simp add: x_def j_def)
  qed
qed

lemma calculateTimeAgo_ieee_exact:
  assumes rd: "ieee_rounding rd" and d: "\<bar>now - t\<bar> < 2 ^ 53"
  shows "calculateTimeAgo_ieee rd now t = calculateTimeAgo now (Num t)"
proof -
  define m where "m = (now - t) div 60000"
  define h where "h = m div 60"
  from rd have exact: "\<And>n::int. \<bar>n\<bar> \<le> 2 ^ 53 \<Longrightarrow> rd (of_int n) = of_int n"
    unfolding ieee_rounding_def by blast
  from d have "\<bar>now - t\<bar> \<le> 2 ^ 53" by simp
  then have "rd (of_int (now - t)) = of_int (now - t)" by (rule exact)
  then have sub: "rd (of_int now - of_int t) = of_int (now - t)" by (simp only: of_int_diff)
  have "\<lfloor>rd (of_int (now - t) / of_int 60000)\<rfloor> = (now - t) div 60000"
    using rd d by (rule floor_rd_div) simp_all
  then have 1: "\<lfloor>rd (of_int (now - t) / 60000)\<rfloor> = m" by (simp add: m_def)
  have "\<bar>m\<bar> \<le> \<bar>now - t\<bar>" unfolding m_def by (rule abs_div_le) simp
  with d have dm: "\<bar>m\<bar> < 2 ^ 53" by simp
  have "\<lfloor>rd (of_int m / of_int 60)\<rfloor> = m div 60"
    using rd dm by (rule floor_rd_div) simp_all
  then have 2: "\<lfloor>rd (of_int m / 60)\<rfloor> = h" by (simp add: h_def)
  have "\<bar>h\<bar> \<le> \<bar>m\<bar>" unfolding h_def by (rule abs_div_le) simp
  with dm have dh: "\<bar>h\<bar> < 2 ^ 53" by simp
  have "\<lfloor>rd (of_int h / of_int 24)\<rfloor> = h div 24"
    using rd dh by (rule floor_rd_div) simp_all
  then have 3: "\<lfloor>rd (of_int h / 24)\<rfloor> = h div 24" by simp
  have k: "(1000 * 60 :: real) = 60000" by simp
  have "calculateTimeAgo_ieee rd now t =
      (if m < 60 then number_toString (Num m) @ '' minute(s) ago''
       else if h < 24 then number_toString (Num h) @ '' hour(s) ago''
       else number_toString (Num (h div 24)) @ '' day(s) ago'')"
    unfolding calculateTimeAgo_ieee_def Let_def sub k 1 2 3 by (rule refl)
  also have "\<dots> = calculateTimeAgo now (Num t)"
    by (simp add: calculateTimeAgo_def Let_def m_def h_def del: number_toString.simps)
  finally show ?thesis .
qed

text \<open>
  C7. For a numeric \<open>date_sent\<close> less than \<open>2 ^ 53\<close> milliseconds from now, where the
  code's arithmetic is exact, the relative age is \<open><n> minute(s) ago\<close> when the floor
  of the elapsed minutes is below 60, otherwise \<open><n> hour(s) ago\<close> when the floor of the
  elapsed hours is below 24, otherwise \<open><n> day(s) ago\<close>; \<open><n>\<close> is the floor of the
  elapsed time in the respective unit, printed in decimal (lemma
  \<open>decimal_value_digits_of_nat\<close>), and there is no larger bucket.
  A \<open>date_sent\<close> that is no number has no minute or hour count below the bounds, and
  falls into the day bucket with \<open>NaN\<close> for \<open><n>\<close>.
\<close>

theorem relativeAge_buckets:
  "(\<bar>now - t\<bar> < 2 ^ 53 \<longrightarrow>
      calculateTimeAgo now (Num t) =
        (if elapsed_units now t 60000 < 60
           then number_toString (Num (elapsed_units now t 60000)) @ '' minute(s) ago''
         else if elapsed_units now t 3600000 < 24
           then number_toString (Num (elapsed_units now t 3600000)) @ '' hour(s) ago''
         else number_toString (Num (elapsed_units now t 86400000)) @ '' day(s) ago''))
   \<and> calculateTimeAgo now NaN = number_toString NaN @ '' day(s) ago''"
  by (simp only: calculateTimeAgo_Num calculateTimeAgo_NaN elapsed_units_div [of 60000]
      elapsed_units_div [of 3600000] elapsed_units_div [of 86400000]) simp

theorem relativeAge_buckets_witness:
  "\<bar>1700000000000 - 1699990000000\<bar> < (2 ^ 53 :: int)
   \<and> calculateTimeAgo 1700000000000 (Num 1699990000000) = ''2 hour(s) ago''
   \<and> elapsed_units 1700000000000 1699990000000 60000 = 166
   \<and> elapsed_units 1700000000000 1699990000000 3600000 = 2"
proof -
  have b: "\<bar>1700000000000 - 1699990000000\<bar> < (2 ^ 53 :: int)" by simp
  have u: "elapsed_units 1700000000000 1699990000000 60000 = 166"
    "elapsed_units 1700000000000 1699990000000 3600000 = 2"
    by (simp_all add: elapsed_units_div)
  have "calculateTimeAgo 1700000000000 (Num 1699990000000) = ''2 hour(s) ago''"
    using relativeAge_buckets [of 1700000000000 1699990000000, THEN conjunct1, THEN mp, OF b]
    by (simp add: u number_toString_2 del: number_toString.simps)
  with b u show ?thesis by (intro conjI)
qed

section \<open>Fetch failure\<close>

text \<open>
  C9. When the fetch fails, the run logs the failure and clears the loading flag; the
  collection of classified messages is the one before the run, and no exception leaves
  the callback.
\<close>

theorem fetch_failure_keeps_messages:
  "fetchSmsMessages now fmt (Failure fail) st =
     (st\<lparr>console_error := console_error st @ [(''Failed to read SMS:'', fail)], loading := False\<rparr>,
      None)
   \<and> messages (fst (fetchSmsMessages now fmt (Failure fail) st)) = messages st
   \<and> snd (fetchSmsMessages now fmt (Failure fail) st) = None"
  by (simp add: fetchSmsMessages_def)

section \<open>Direction and category\<close>

text \<open>
  C5. The category is Grocery when the lower-cased body contains \<open>grocery\<close>; otherwise
  Dining when it contains \<open>dining\<close>; otherwise Shopping when it contains \<open>shopping\<close>;
  otherwise it is absent. A body with both \<open>grocery\<close> and \<open>dining\<close> gets Grocery.
\<close>

theorem category_precedence:
  "(sublist ''grocery'' (toLowerCase b) \<longrightarrow> extractCategory b = Some ''Grocery'')
   \<and> (\<not> sublist ''grocery'' (toLowerCase b) \<and> sublist ''dining'' (toLowerCase b)
        \<longrightarrow> extractCategory b = Some ''Dining'')
   \<and> (\<not> sublist ''grocery'' (toLowerCase b) \<and> \<not> sublist ''dining'' (toLowerCase b)
        \<and> sublist ''shopping'' (toLowerCase b) \<longrightarrow> extractCategory b = Some ''Shopping'')
   \<and> (\<not> sublist ''grocery'' (toLowerCase b) \<and> \<not> sublist ''dining'' (toLowerCase b)
        \<and> \<not> sublist ''shopping'' (toLowerCase b) \<longrightarrow> extractCategory b = None)
   \<and> (sublist ''grocery'' (toLowerCase b) \<and> sublist ''dining'' (toLowerCase b)
        \<longrightarrow> extractCategory b = Some ''Grocery'')"
  by (simp add: extractCategory_def str_includes_sublist)

theorem category_precedence_witness:
  "sublist ''grocery'' (toLowerCase ''Dining at GROCERY store'')
   \<and> sublist ''dining'' (toLowerCase ''Dining at GROCERY store'')
   \<and> extractCategory ''Dining at GROCERY store'' = Some ''Grocery''
   \<and> \<not> sublist ''grocery'' (toLowerCase ''Dining and Shopping'')
   \<and> extractCategory ''Dining and Shopping'' = Some ''Dining''
   \<and> extractCategory ''SHOPPING mall'' = Some ''Shopping''
   \<and> extractCategory ''Rs.500 debited from a/c'' = None"
proof -
  have a: "str_includes (toLowerCase ''Dining at GROCERY store'') ''grocery''"
    "str_includes (toLowerCase ''Dining at GROCERY store'') ''dining''"
    "\<not> str_includes (toLowerCase ''Dining and Shopping'') ''grocery''"
    "str_includes (toLowerCase ''Dining and Shopping'') ''dining''"
    "\<not> str_includes (toLowerCase ''SHOPPING mall'') ''grocery''"
    "\<not> str_includes (toLowerCase ''SHOPPING mall'') ''dining''"
    "str_includes (toLowerCase ''SHOPPING mall'') ''shopping''"
    "\<not> str_includes (toLowerCase ''Rs.500 debited from a/c'') ''grocery''"
    "\<not> str_includes (toLowerCase ''Rs.500 debited from a/c'') ''dining''"
    "\<not> str_includes (toLowerCase ''Rs.500 debited from a/c'') ''shopping''"
    by code_simp+
  note b = a [unfolded str_includes_sublist]
  have 1: "extractCategory ''Dining at GROCERY store'' = Some ''Grocery''"
    using category_precedence [of "''Dining at GROCERY store''"] b by simp
  have 2: "extractCategory ''Dining and Shopping'' = Some ''Dining''"
    using category_precedence [of "''Dining and Shopping''"] b by simp
  have 3: "extractCategory ''SHOPPING mall'' = Some ''Shopping''"
    using category_precedence [of "''SHOPPING mall''"] b by simp
  have 4: "extractCategory ''Rs.500 debited from a/c'' = None"
    using category_precedence [of "''Rs.500 debited from a/c''"] b by simp
  from 1 2 3 4 b show ?thesis by simp
qed

text \<open>
  C3. A message with a body (every retained message has one) is classified without an
  exception; its direction is debited when the lower-cased body contains \<open>debited\<close>,
  and credited otherwise, also when the body does not contain \<open>credited\<close> either.
\<close>

theorem direction_rule:
  assumes "msg_body m = Some b"
  shows "\<exists>r. parseMessageDetails now fmt m = Inr r
           \<and> (sublist ''debited'' (toLowerCase b) \<longrightarrow> sms_type r = debited)
           \<and> (\<not> sublist ''debited'' (toLowerCase b) \<longrightarrow> sms_type r = credited)
           \<and> (\<not> sublist ''debited'' (toLowerCase b) \<and> \<not> sublist ''credited'' (toLowerCase b)
                \<longrightarrow> sms_type r = credited)"
  using assms by (simp add: parseMessageDetails_def type_of_def str_includes_sublist)

lemma lower_examples:
  "str_includes (toLowerCase ''Rs.100 Debited from a/c'') ''debited''"
  "\<not> str_includes (toLowerCase ''Payment received'') ''debited''"
  "\<not> str_includes (toLowerCase ''Payment received'') ''credited''"
  "str_includes (toLowerCase ''Rs.500 debited from a/c'') ''debited''"
  by code_simp+

theorem direction_rule_witness:
  "(\<exists>r. parseMessageDetails 0 (\<lambda>t. []) \<lparr>msg_id = 1, address = None, msg_body = Some ''Rs.100 Debited from a/c'', date_sent = NaN\<rparr> = Inr r
        \<and> sublist ''debited'' (toLowerCase ''Rs.100 Debited from a/c'') \<and> sms_type r = debited)
   \<and> (\<exists>r. parseMessageDetails 0 (\<lambda>t. []) \<lparr>msg_id = 2, address = None, msg_body = Some ''Payment received'', date_sent = NaN\<rparr> = Inr r
        \<and> \<not> sublist ''debited'' (toLowerCase ''Payment received'')
        \<and> \<not> sublist ''credited'' (toLowerCase ''Payment received'') \<and> sms_type r = credited)"
proof -
  note b = lower_examples [unfolded str_includes_sublist]
  have 1: "\<exists>r. parseMessageDetails 0 (\<lambda>t. []) \<lparr>msg_id = 1, address = None, msg_body = Some ''Rs.100 Debited from a/c'', date_sent = NaN\<rparr> = Inr r
        \<and> sublist ''debited'' (toLowerCase ''Rs.100 Debited from a/c'') \<and> sms_type r = debited"
    using direction_rule [of "\<lparr>msg_id = 1, address = None, msg_body = Some ''Rs.100 Debited from a/c'', date_sent = NaN\<rparr>" "''Rs.100 Debited from a/c''" 0 "\<lambda>t. []"] b
    by auto
  have 2: "\<exists>r. parseMessageDetails 0 (\<lambda>t. []) \<lparr>msg_id = 2, address = None, msg_body = Some ''Payment received'', date_sent = NaN\<rparr> = Inr r
        \<and> \<not> sublist ''debited'' (toLowerCase ''Payment received'')
        \<and> \<not> sublist ''credited'' (toLowerCase ''Payment received'') \<and> sms_type r = credited"
    using direction_rule [of "\<lparr>msg_id = 2, address = None, msg_body = Some ''Payment received'', date_sent = NaN\<rparr>" "''Payment received''" 0 "\<lambda>t. []"] b
    by auto
  from 1 2 show ?thesis by (rule conjI)
qed

section \<open>The filtered view\<close>

lemma direction_ok_code:
  "direction_ok flt msg = (if filter_str flt = ''all'' then True else type_str (sms_type msg) = filter_str flt)"
  by (cases flt; cases "sms_type msg") (simp_all add: direction_ok_def)

lemma filteredMessages_filter:
  "filteredMessages msgs flt q = filter (\<lambda>msg. direction_ok flt msg \<and> search_ok q msg) msgs"
  by (simp add: filteredMessages_def direction_ok_code search_ok_def ci_substring_code Let_def conj_commute)

text \<open>
  C6. The view is the list of the classified messages that satisfy the direction
  predicate and the search predicate, in their original order. The empty search text
  matches every message, so the debited filter with the empty search text gives the
  debited messages in their original order.
\<close>

theorem applyView_filter:
  "filteredMessages msgs flt q = filter (\<lambda>msg. direction_ok flt msg \<and> search_ok q msg) msgs
   \<and> filteredMessages msgs F_debited [] = filter (\<lambda>msg. sms_type msg = debited) msgs
   \<and> search_ok [] msg"
proof -
  have b: "search_ok [] x" for x
    by (simp add: search_ok_def ci_substring_empty)
  have "filteredMessages msgs F_debited [] = filter (\<lambda>msg. sms_type msg = debited) msgs"
    by (simp add: filteredMessages_filter b direction_ok_def)
  with b show ?thesis by (simp add: filteredMessages_filter)
qed

theorem applyView_filter_witness:
  "filteredMessages [example_credit, example_debit, example_credit, example_debit] F_debited []
     = [example_debit, example_debit]
   \<and> filteredMessages [example_credit, example_debit] F_all ''bank'' = [example_debit]
   \<and> filteredMessages [example_credit, example_debit] F_credited ''CREDIT'' = [example_credit]"
proof -
  have 1: "filteredMessages [example_credit, example_debit, example_credit, example_debit] F_debited []
     = [example_debit, example_debit]"
    using applyView_filter [THEN conjunct2, THEN conjunct1,
        of "[example_credit, example_debit, example_credit, example_debit]"]
    by (simp add: example_credit_def example_debit_def)
  have l: "toLowerCase ''bank'' = ''bank''" "toLowerCase ''BANK'' = ''bank''" "toLowerCase ''UPI'' = ''upi''"
    "toLowerCase ''INR 20 credited'' = ''inr 20 credited''" "toLowerCase ''CREDIT'' = ''credit''"
    "toLowerCase ''Rs.500 debited from a/c'' = ''rs.500 debited from a/c''"
    by code_simp+
  have 2: "filteredMessages [example_credit, example_debit] F_all ''bank'' = [example_debit]"
    using applyView_filter [THEN conjunct1, of "[example_credit, example_debit]" F_all "''bank''"]
    by (simp add: example_credit_def example_debit_def direction_ok_def search_ok_def ci_substring_code l)
  have 3: "filteredMessages [example_credit, example_debit] F_credited ''CREDIT'' = [example_credit]"
    using applyView_filter [THEN conjunct1, of "[example_credit, example_debit]" F_credited "''CREDIT''"]
    by (simp add: example_credit_def example_debit_def direction_ok_def search_ok_def ci_substring_code l)
  from 1 2 3 show ?thesis by simp
qed

section \<open>Classification of a batch\<close>

lemma scenario_parts:
  "amount_of ''Rs.500 debited from a/c'' = ''500''"
  "type_of ''Rs.500 debited from a/c'' = debited"
  "extractCategory ''Rs.500 debited from a/c'' = None"
  "str_includes ''Rs.500 debited from a/c'' ''debited''"
  by code_simp+

lemma two_minutes_ago: "calculateTimeAgo now (Num (now - 120000)) = ''2 minute(s) ago''"
  by (simp add: calculateTimeAgo_Num number_toString_2 del: number_toString.simps)

text \<open>
  C1. The batch of the one message from BANK with the body \<open>Rs.500 debited from a/c\<close>,
  sent 120000 ms before now, is classified as exactly one record, with the amount 500,
  the direction debited, the relative age \<open>2 minute(s) ago\<close> and no category.
\<close>

theorem scenario_single_debit:
  "parsedMessages now fmt
     [\<lparr>msg_id = i, address = Some ''BANK'', msg_body = Some ''Rs.500 debited from a/c'',
       date_sent = Num (now - 120000)\<rparr>]
   = Inr [\<lparr>sms_id = i, body = ''Rs.500 debited from a/c'', sender = ''BANK'', amount = ''500'',
           date = toLocaleDateString fmt (Num (now - 120000)), timeAgo = ''2 minute(s) ago'',
           sms_type = debited, category = None\<rparr>]"
  by (simp add: parsedMessages_def retained_def parseMessageDetails_def scenario_parts
      two_minutes_ago address_or_Unknown_def)

theorem scenario_single_debit_witness:
  "\<exists>r. parsedMessages 1700000000000 (\<lambda>t. ''11/14/2023'')
     [\<lparr>msg_id = 7, address = Some ''BANK'', msg_body = Some ''Rs.500 debited from a/c'',
       date_sent = Num 1699999880000\<rparr>] = Inr [r]
     \<and> amount r = ''500'' \<and> sms_type r = debited \<and> timeAgo r = ''2 minute(s) ago''
     \<and> category r = None \<and> date r = ''11/14/2023''"
  using scenario_single_debit [of 1700000000000 "\<lambda>t. ''11/14/2023''" 7]
  by (simp add: toLocaleDateString_def)

text \<open>
  C10. For a batch whose records all have a body, the classified messages are the
  records that pass the retention filter, each mapped by \<open>parseMessageDetails\<close>, in the
  order of the input.
\<close>

theorem classify_preserves_order:
  assumes "\<forall>m\<in>set smsList. msg_body m \<noteq> None"
  shows "\<exists>out. parsedMessages now fmt smsList = Inr out
           \<and> map Inr out = map (parseMessageDetails now fmt) (filter (\<lambda>m. retained m = Inr True) smsList)
           \<and> subseq (filter (\<lambda>m. retained m = Inr True) smsList) smsList"
  using parsedMessages_kept [OF assms, of now fmt] by (auto simp: retained_True)

lemma raw_retained:
  "retained raw_debit = Inr True" "retained raw_other = Inr False" "retained raw_credit = Inr True"
  by (simp_all add: retained_def raw_debit_def raw_other_def raw_credit_def)

lemma raw_bodies: "\<forall>m\<in>set [raw_credit, raw_other, raw_debit]. msg_body m \<noteq> None"
  by (simp add: raw_debit_def raw_other_def raw_credit_def)

theorem classify_preserves_order_witness:
  "\<exists>out. parsedMessages 1700000000000 (\<lambda>t. []) [raw_credit, raw_other, raw_debit] = Inr out
     \<and> map Inr out = [parseMessageDetails 1700000000000 (\<lambda>t. []) raw_credit,
                       parseMessageDetails 1700000000000 (\<lambda>t. []) raw_debit]"
  using classify_preserves_order [OF raw_bodies, of 1700000000000 "\<lambda>t. []"]
  by (auto simp: raw_retained)

lemma Debited_lower: "toLowerCase ''Debited'' = ''debited''"
  by code_simp

text \<open>
  C2. For a batch whose records all have a body, classification returns a list that is
  no longer than the batch: one record for each message the filter kept, and the filter
  kept no message whose body lacks both \<open>debited\<close> and \<open>credited\<close> (case-sensitive),
  so every classified body contains one of the two. A message whose body has
  \<open>Debited\<close> but neither keyword in lower case is dropped by the filter, although
  \<open>parseMessageDetails\<close> gives it the direction debited.
\<close>

theorem filter_drops_unmarked:
  assumes "\<forall>m\<in>set smsList. msg_body m \<noteq> None"
  shows "\<exists>kept out. Array_filter retained smsList = Inr kept
           \<and> parsedMessages now fmt smsList = Inr out
           \<and> list_all2 (\<lambda>m r. parseMessageDetails now fmt m = Inr r) kept out
           \<and> length out \<le> length smsList
           \<and> (\<forall>m\<in>set smsList. \<not> has_keyword m \<longrightarrow> m \<notin> set kept)
           \<and> (\<forall>r\<in>set out. sublist ''debited'' (body r) \<or> sublist ''credited'' (body r))
           \<and> (\<forall>m\<in>set smsList. \<forall>b. msg_body m = Some b \<and> sublist ''Debited'' b \<and> \<not> has_keyword m
                \<longrightarrow> m \<notin> set kept
                    \<and> parsedMessages now fmt [m] = Inr []
                    \<and> (\<exists>r. parseMessageDetails now fmt m = Inr r \<and> sms_type r = debited))"
proof -
  let ?kept = "filter has_keyword smsList"
  obtain out where k: "Array_filter retained smsList = Inr ?kept"
    and p: "parsedMessages now fmt smsList = Inr out"
    and o: "map Inr out = map (parseMessageDetails now fmt) ?kept"
    using parsedMessages_kept [OF assms, of now fmt] by blast
  have len: "length out = length ?kept"
    using o by (metis length_map)
  have rel: "list_all2 (\<lambda>m r. parseMessageDetails now fmt m = Inr r) ?kept out"
    unfolding list_all2_conv_all_nth
  proof (intro conjI allI impI)
    show "length ?kept = length out" using len by simp
  next
    fix n assume "n < length ?kept"
    then have "map (parseMessageDetails now fmt) ?kept ! n = map Inr out ! n"
      using o by simp
    then show "parseMessageDetails now fmt (?kept ! n) = Inr (out ! n)"
      using \<open>n < length ?kept\<close> len by simp
  qed
  have bodies: "sublist ''debited'' (body r) \<or> sublist ''credited'' (body r)" if "r \<in> set out" for r
  proof -
    from that obtain n where n: "n < length out" "out ! n = r"
      by (auto simp: in_set_conv_nth)
    define m where "m = ?kept ! n"
    have "parseMessageDetails now fmt m = Inr r"
      using list_all2_nthD2 [OF rel n(1)] n(2) by (simp add: m_def)
    moreover have "m \<in> set ?kept"
      unfolding m_def using n(1) len by (intro nth_mem) simp
    ultimately have m: "m \<in> set ?kept" "parseMessageDetails now fmt m = Inr r"
      by simp_all
    then obtain b where b: "msg_body m = Some b" "sublist ''debited'' b \<or> sublist ''credited'' b"
      by (auto simp: has_keyword_def)
    with m parse_Inr [of m b now fmt] show ?thesis by auto
  qed
  have cap: "m \<notin> set ?kept \<and> parsedMessages now fmt [m] = Inr []
      \<and> (\<exists>r. parseMessageDetails now fmt m = Inr r \<and> sms_type r = debited)"
    if "msg_body m = Some b" "sublist ''Debited'' b" "\<not> has_keyword m" for m b
  proof -
    have "retained m = Inr False"
      using that by (auto simp: retained_def has_keyword_def str_includes_sublist)
    then have 1: "parsedMessages now fmt [m] = Inr []"
      by (simp add: parsedMessages_def)
    have "sublist ''debited'' (toLowerCase b)"
      using sublist_toLowerCase [OF that(2)] by (simp add: Debited_lower)
    then have "type_of b = debited"
      by (simp add: type_of_def str_includes_sublist)
    then have "\<exists>r. parseMessageDetails now fmt m = Inr r \<and> sms_type r = debited"
      using that(1) by (simp add: parseMessageDetails_def)
    with 1 that(3) show ?thesis by simp
  qed
  have "length out \<le> length smsList"
    using len by simp
  with k p rel bodies cap show ?thesis
    by (intro exI [of _ ?kept] exI [of _ out]) auto
qed

theorem filter_drops_unmarked_witness:
  "\<exists>kept out. Array_filter retained [raw_credit, raw_other, raw_debit] = Inr kept
     \<and> parsedMessages 1700000000000 (\<lambda>t. []) [raw_credit, raw_other, raw_debit] = Inr out
     \<and> length out \<le> 3 \<and> raw_other \<notin> set kept \<and> sublist ''Debited'' (the (msg_body raw_other))
     \<and> \<not> has_keyword raw_other
     \<and> parsedMessages 1700000000000 (\<lambda>t. []) [raw_other] = Inr []
     \<and> (\<exists>r. parseMessageDetails 1700000000000 (\<lambda>t. []) raw_other = Inr r \<and> sms_type r = debited)"
proof -
  note a = raw_bodies
  have b: "msg_body raw_other = Some ''Rs.100 Debited from a/c''"
    by (simp add: raw_other_def)
  have c: "sublist ''Debited'' ''Rs.100 Debited from a/c''"
    unfolding str_includes_sublist [symmetric] by simp
  have d: "\<not> has_keyword raw_other"
    using raw_retained(2) by (simp add: retained_True [symmetric])
  from filter_drops_unmarked [OF a, of 1700000000000 "\<lambda>t. []"] b c d
  show ?thesis by fastforce
qed

section \<open>The matcher and the language of a pattern\<close>



lemma star_loop_sound:
  assumes body: "\<And>k st res. m k st = Some res \<Longrightarrow> \<exists>w s' c'. fst st = w @ s' \<and> w \<in> A \<and> k (s', c') = Some res"
  shows "star_loop m k n st = Some res \<Longrightarrow> \<exists>w s' c'. fst st = w @ s' \<and> w \<in> star A \<and> k (s', c') = Some res"
proof (induction n arbitrary: st)
  case 0
  then show ?case by simp
next
  case (Suc n)
  let ?k = "\<lambda>st'. if length (fst st') < length (fst st) then star_loop m k n st' else None"
  show ?case
  proof (cases "m ?k st")
    case None
    with Suc.prems have "k (fst st, snd st) = Some res" by simp
    then show ?thesis using star_nil [of A] by (metis append_Nil)
  next
    case (Some x)
    with Suc.prems have "m ?k st = Some res" by simp
    from body [OF this] obtain u s1 c1 where u: "fst st = u @ s1" "u \<in> A" "?k (s1, c1) = Some res"
      by blast
    then have "star_loop m k n (s1, c1) = Some res" by (auto split: if_splits)
    from Suc.IH [OF this] obtain v s2 c2 where v: "s1 = v @ s2" "v \<in> star A" "k (s2, c2) = Some res"
      by auto
    from u v have "fst st = (u @ v) @ s2" "u @ v \<in> star A" by (auto intro: star_app)
    with v(3) show ?thesis by blast
  qed
qed

lemma sound_Cls:
  assumes "matcher (Cls P) k st = Some res"
  shows "\<exists>w s' c'. fst st = w @ s' \<and> w \<in> lang (Cls P) \<and> k (s', c') = Some res"
proof -
  from assms obtain c cs where c: "fst st = c # cs" "P c" "k (cs, snd st) = Some res"
    by (cases "fst st") (auto split: if_splits)
  then have "fst st = [c] @ cs" "[c] \<in> lang (Cls P)" by auto
  with c(3) show ?thesis by blast
qed

lemma sound_Seq:
  assumes IH1: "\<And>k st res. matcher r1 k st = Some res \<Longrightarrow> \<exists>w s' c'. fst st = w @ s' \<and> w \<in> lang r1 \<and> k (s', c') = Some res"
    and IH2: "\<And>k st res. matcher r2 k st = Some res \<Longrightarrow> \<exists>w s' c'. fst st = w @ s' \<and> w \<in> lang r2 \<and> k (s', c') = Some res"
    and prems: "matcher (Seq r1 r2) k st = Some res"
  shows "\<exists>w s' c'. fst st = w @ s' \<and> w \<in> lang (Seq r1 r2) \<and> k (s', c') = Some res"
proof -
  from prems have "matcher r1 (matcher r2 k) st = Some res" by simp
  from IH1 [OF this] obtain u s1 c1 where u: "fst st = u @ s1" "u \<in> lang r1"
    "matcher r2 k (s1, c1) = Some res" by blast
  from IH2 [OF u(3)] obtain v s2 c2 where v: "s1 = v @ s2" "v \<in> lang r2" "k (s2, c2) = Some res"
    by auto
  from u v have "fst st = (u @ v) @ s2" "u @ v \<in> lang (Seq r1 r2)" by auto
  with v(3) show ?thesis by blast
qed

lemma sound_Alt:
  assumes IH1: "\<And>k st res. matcher r1 k st = Some res \<Longrightarrow> \<exists>w s' c'. fst st = w @ s' \<and> w \<in> lang r1 \<and> k (s', c') = Some res"
    and IH2: "\<And>k st res. matcher r2 k st = Some res \<Longrightarrow> \<exists>w s' c'. fst st = w @ s' \<and> w \<in> lang r2 \<and> k (s', c') = Some res"
    and prems: "matcher (Alt r1 r2) k st = Some res"
  shows "\<exists>w s' c'. fst st = w @ s' \<and> w \<in> lang (Alt r1 r2) \<and> k (s', c') = Some res"
proof (cases "matcher r1 k st")
  case None
  with prems have "matcher r2 k st = Some res" by simp
  from IH2 [OF this] obtain w s' c' where w: "fst st = w @ s'" "w \<in> lang r2" "k (s', c') = Some res"
    by blast
  then have "w \<in> lang (Alt r1 r2)" by simp
  with w show ?thesis by blast
next
  case (Some x)
  with prems have "matcher r1 k st = Some res" by simp
  from IH1 [OF this] obtain w s' c' where w: "fst st = w @ s'" "w \<in> lang r1" "k (s', c') = Some res"
    by blast
  then have "w \<in> lang (Alt r1 r2)" by simp
  with w show ?thesis by blast
qed

lemma sound_Opt:
  assumes IH: "\<And>k st res. matcher r k st = Some res \<Longrightarrow> \<exists>w s' c'. fst st = w @ s' \<and> w \<in> lang r \<and> k (s', c') = Some res"
    and prems: "matcher (Opt r) k st = Some res"
  shows "\<exists>w s' c'. fst st = w @ s' \<and> w \<in> lang (Opt r) \<and> k (s', c') = Some res"
proof -
  let ?k = "\<lambda>st'. if length (fst st') < length (fst st) then k st' else None"
  show ?thesis
  proof (cases "matcher r ?k st")
    case None
    with prems have "k (fst st, snd st) = Some res" by simp
    moreover have "fst st = [] @ fst st" "[] \<in> lang (Opt r)" by simp_all
    ultimately show ?thesis by blast
  next
    case (Some x)
    with prems have "matcher r ?k st = Some res" by simp
    from IH [OF this] obtain u s1 c1 where u: "fst st = u @ s1" "u \<in> lang r"
      and k: "(if length s1 < length (fst st) then k (s1, c1) else None) = Some res"
      by auto
    from k have "k (s1, c1) = Some res" by (simp split: if_splits)
    moreover from u(2) have "u \<in> lang (Opt r)" by simp
    ultimately show ?thesis using u(1) by blast
  qed
qed

lemma sound_Grp:
  assumes IH: "\<And>k st res. matcher r k st = Some res \<Longrightarrow> \<exists>w s' c'. fst st = w @ s' \<and> w \<in> lang r \<and> k (s', c') = Some res"
    and prems: "matcher (Grp r) k st = Some res"
  shows "\<exists>w s' c'. fst st = w @ s' \<and> w \<in> lang (Grp r) \<and> k (s', c') = Some res"
proof -
  let ?k = "\<lambda>st'. k (fst st', Some (take (length (fst st) - length (fst st')) (fst st)))"
  from prems have "matcher r ?k st = Some res" by simp
  from IH [OF this] obtain w s' c' where w: "fst st = w @ s'" "w \<in> lang r"
    and k: "k (s', Some (take (length (fst st) - length s') (fst st))) = Some res"
    by auto
  from w(2) have "w \<in> lang (Grp r)" by simp
  with k show ?thesis using w(1) by blast
qed

lemma sound_Star:
  assumes IH: "\<And>k st res. matcher r k st = Some res \<Longrightarrow> \<exists>w s' c'. fst st = w @ s' \<and> w \<in> lang r \<and> k (s', c') = Some res"
    and prems: "matcher (Star r) k st = Some res"
  shows "\<exists>w s' c'. fst st = w @ s' \<and> w \<in> lang (Star r) \<and> k (s', c') = Some res"
proof -
  from prems have "star_loop (matcher r) k (Suc (length (fst st))) st = Some res" by simp
  from star_loop_sound [of "matcher r" "lang r", OF IH this] show ?thesis by simp
qed

lemma matcher_sound:
  "matcher r k st = Some res \<Longrightarrow> \<exists>w s' c'. fst st = w @ s' \<and> w \<in> lang r \<and> k (s', c') = Some res"
proof (induction r arbitrary: k st res)
  case (Cls P)
  then show ?case by (rule sound_Cls)
next
  case (Seq r1 r2)
  from Seq.IH(1) Seq.IH(2) Seq.prems show ?case by (rule sound_Seq)
next
  case (Alt r1 r2)
  from Alt.IH(1) Alt.IH(2) Alt.prems show ?case by (rule sound_Alt)
next
  case (Opt r)
  from Opt.IH Opt.prems show ?case by (rule sound_Opt)
next
  case (Star r)
  from Star.IH Star.prems show ?case by (rule sound_Star)
next
  case (Grp r)
  from Grp.IH Grp.prems show ?case by (rule sound_Grp)
qed


lemma regex_exec_sound:
  "regex_exec r s = Some res \<Longrightarrow> \<exists>pre rest. s = pre @ rest \<and> matcher r Some (rest, None) = Some res"
proof (induction s)
  case Nil
  then show ?case by simp
next
  case (Cons c cs)
  show ?case
  proof (cases "matcher r Some (c # cs, None)")
    case None
    with Cons.prems have "regex_exec r cs = Some res" by simp
    from Cons.IH [OF this] obtain pre rest where "cs = pre @ rest" "matcher r Some (rest, None) = Some res"
      by blast
    then have "c # cs = (c # pre) @ rest" by simp
    with \<open>matcher r Some (rest, None) = Some res\<close> show ?thesis by blast
  next
    case (Some x)
    with Cons.prems have "matcher r Some (c # cs, None) = Some res" by simp
    then show ?thesis by (metis append_Nil)
  qed
qed


section \<open>The language of the amount pattern\<close>

lemma of_char_canonicalize:
  "(of_char (canonicalize x) :: nat) =
     (if 97 \<le> (of_char x :: nat) \<and> (of_char x :: nat) \<le> 122 then of_char x - 32 else of_char x)"
proof -
  define n where "n = (of_char x :: nat)"
  have "n < 256" unfolding n_def by simp
  then have "n - 32 < 256" by arith
  then have "(n - 32) mod 256 = n - 32" by (rule mod_less)
  then show ?thesis unfolding n_def by (simp add: canonicalize_def Let_def)
qed

lemma of_char_toLowerCase_char:
  "(of_char (toLowerCase_char x) :: nat) =
     (if (65 \<le> (of_char x :: nat) \<and> (of_char x :: nat) \<le> 90)
         \<or> (192 \<le> (of_char x :: nat) \<and> (of_char x :: nat) \<le> 222 \<and> (of_char x :: nat) \<noteq> 215)
      then of_char x + 32 else of_char x)"
proof -
  define n where "n = (of_char x :: nat)"
  have "(n + 32) mod 256 = n + 32" if "n \<le> 222"
    using that by (intro mod_less) arith
  then show ?thesis unfolding n_def by (auto simp: toLowerCase_char_def Let_def)
qed

lemma char_eq_nat: "x = y \<longleftrightarrow> (of_char x :: nat) = of_char y"
  by simp

lemma case_fold_nat:
  fixes n m :: nat
  assumes "m < 128"
  shows "((if 97 \<le> n \<and> n \<le> 122 then n - 32 else n) = (if 97 \<le> m \<and> m \<le> 122 then m - 32 else m))
     \<longleftrightarrow> ((if (65 \<le> n \<and> n \<le> 90) \<or> (192 \<le> n \<and> n \<le> 222 \<and> n \<noteq> 215) then n + 32 else n)
          = (if (65 \<le> m \<and> m \<le> 90) \<or> (192 \<le> m \<and> m \<le> 222 \<and> m \<noteq> 215) then m + 32 else m))"
  using assms by (simp split: if_splits) arith

lemma canonicalize_ascii:
  assumes "(of_char c :: nat) < 128"
  shows "canonicalize x = canonicalize c \<longleftrightarrow> toLowerCase_char x = toLowerCase_char c"
proof -
  have "canonicalize x = canonicalize c \<longleftrightarrow> (of_char (canonicalize x) :: nat) = of_char (canonicalize c)"
    by simp
  also have "\<dots> \<longleftrightarrow> (of_char (toLowerCase_char x) :: nat) = of_char (toLowerCase_char c)"
    unfolding of_char_canonicalize of_char_toLowerCase_char using assms by (rule case_fold_nat)
  also have "\<dots> \<longleftrightarrow> toLowerCase_char x = toLowerCase_char c"
    by simp
  finally show ?thesis .
qed

lemma lower_letters:
  "toLowerCase_char CHR ''I'' = CHR ''i''" "toLowerCase_char CHR ''N'' = CHR ''n''"
  "toLowerCase_char CHR ''R'' = CHR ''r''" "toLowerCase_char CHR ''s'' = CHR ''s''"
  by code_simp+

lemma lower_full_stop: "toLowerCase_char x = CHR ''.'' \<longleftrightarrow> x = CHR ''.''"
proof -
  define n where "n = (of_char x :: nat)"
  have "toLowerCase_char x = CHR ''.'' \<longleftrightarrow> (of_char (toLowerCase_char x) :: nat) = of_char CHR ''.''"
    by (rule char_eq_nat)
  also have "\<dots> \<longleftrightarrow> n = 46"
    unfolding of_char_toLowerCase_char n_def [symmetric] by (simp split: if_splits)
  also have "\<dots> \<longleftrightarrow> x = CHR ''.''"
    unfolding n_def by (simp add: char_eq_nat [of x])
  finally show ?thesis .
qed

lemma lang_chr_i:
  "(of_char c :: nat) < 128 \<Longrightarrow> lang (chr_i c) = {[x] | x. toLowerCase_char x = toLowerCase_char c}"
  by (simp add: chr_i_def canonicalize_ascii)

lemma lang_chr: "lang (chr c) = {[c]}"
  by (auto simp: chr_def)

lemma ascii_letters:
  "(of_char CHR ''I'' :: nat) < 128" "(of_char CHR ''N'' :: nat) < 128"
  "(of_char CHR ''R'' :: nat) < 128" "(of_char CHR ''s'' :: nat) < 128"
  by simp_all

lemma lang_Cls_Seq: "lang (Seq (Cls P) r) = {c # v | c v. P c \<and> v \<in> lang r}"
proof (intro set_eqI iffI)
  fix w assume "w \<in> lang (Seq (Cls P) r)"
  then obtain u v where w: "w = u @ v" "u \<in> lang (Cls P)" "v \<in> lang r" by auto
  then obtain c where "u = [c]" "P c" by auto
  with w show "w \<in> {c # v | c v. P c \<and> v \<in> lang r}" by auto
next
  fix w assume "w \<in> {c # v | c v. P c \<and> v \<in> lang r}"
  then obtain c v where w: "w = c # v" "P c" "v \<in> lang r" by auto
  then have "w = [c] @ v" "[c] \<in> lang (Cls P)" by auto
  with w(3) show "w \<in> lang (Seq (Cls P) r)" unfolding lang.simps(2) by blast
qed

lemma lower_i: "toLowerCase_char x = CHR ''i'' \<longleftrightarrow> canonicalize x = canonicalize CHR ''I''"
  by (simp add: canonicalize_ascii lower_letters)

lemma lower_n: "toLowerCase_char x = CHR ''n'' \<longleftrightarrow> canonicalize x = canonicalize CHR ''N''"
  by (simp add: canonicalize_ascii lower_letters)

lemma lower_r: "toLowerCase_char x = CHR ''r'' \<longleftrightarrow> canonicalize x = canonicalize CHR ''R''"
  by (simp add: canonicalize_ascii lower_letters)

lemma lower_s: "toLowerCase_char x = CHR ''s'' \<longleftrightarrow> canonicalize x = canonicalize CHR ''s''"
  by (simp add: canonicalize_ascii lower_letters)

lemma lang_inr_rx: "lang inr_rx = {w. toLowerCase w = ''inr''}"
  unfolding inr_rx_def chr_i_def lang_Cls_Seq
  by (auto simp: toLowerCase_def map_eq_Cons_conv lower_i lower_n lower_r)

lemma lang_rs_rx: "lang rs_rx = {w. toLowerCase w = ''rs'' \<or> toLowerCase w = ''rs.''}"
  unfolding rs_rx_def chr_i_def chr_def lang_Cls_Seq
  by (auto simp: toLowerCase_def map_eq_Cons_conv lower_r lower_s lower_full_stop)

lemma lang_currency_rx: "lang currency_rx = {mk. is_currency_marker mk}"
  unfolding currency_rx_def lang.simps(3) lang_inr_rx lang_rs_rx is_currency_marker_def by blast

lemma lang_optional_space: "lang (Opt (Cls is_space)) = {ws. optional_space ws}"
  by (auto simp: optional_space_def)

lemma star_Cls: "star (lang (Cls P)) = {w. \<forall>c\<in>set w. P c}"
proof (intro set_eqI iffI)
  fix w assume "w \<in> star (lang (Cls P))"
  then show "w \<in> {w. \<forall>c\<in>set w. P c}"
    by (induction rule: star.induct) auto
next
  fix w assume "w \<in> {w. \<forall>c\<in>set w. P c}"
  then have "\<forall>c\<in>set w. P c" by simp
  then show "w \<in> star (lang (Cls P))"
  proof (induction w)
    case Nil
    show ?case by (rule star_nil)
  next
    case (Cons c w)
    then have "[c] \<in> lang (Cls P)" "w \<in> star (lang (Cls P))" by simp_all
    then have "[c] @ w \<in> star (lang (Cls P))" by (rule star_app)
    then show ?case by simp
  qed
qed

lemma lang_digits_rx: "lang digits_rx = {ds. digit_string ds}"
proof -
  have "lang digits_rx = {c # v | c v. is_digit c \<and> (\<forall>x\<in>set v. is_digit x)}"
    unfolding digits_rx_def plus_def lang_Cls_Seq lang.simps(5) star_Cls by simp
  also have "\<dots> = {ds. digit_string ds}"
  proof (intro set_eqI iffI)
    fix w assume "w \<in> {c # v | c v. is_digit c \<and> (\<forall>x\<in>set v. is_digit x)}"
    then show "w \<in> {ds. digit_string ds}" by (auto simp: digit_string_def)
  next
    fix w assume "w \<in> {ds. digit_string ds}"
    then obtain c v where "w = c # v" "is_digit c" "\<forall>x\<in>set v. is_digit x"
      by (cases w) (auto simp: digit_string_def)
    then show "w \<in> {c # v | c v. is_digit c \<and> (\<forall>x\<in>set v. is_digit x)}" by auto
  qed
  finally show ?thesis .
qed

lemma star_concat: "w \<in> star A \<longleftrightarrow> (\<exists>gs. w = concat gs \<and> (\<forall>g\<in>set gs. g \<in> A))"
proof
  assume "w \<in> star A"
  then show "\<exists>gs. w = concat gs \<and> (\<forall>g\<in>set gs. g \<in> A)"
  proof (induction rule: star.induct)
    case star_nil
    have "[] = concat []" "\<forall>g\<in>set ([] :: string list). g \<in> A" by simp_all
    then show ?case by blast
  next
    case (star_app u v)
    then obtain gs where "v = concat gs" "\<forall>g\<in>set gs. g \<in> A" by blast
    with star_app.hyps(1) have "u @ v = concat (u # gs)" "\<forall>g\<in>set (u # gs). g \<in> A" by simp_all
    then show ?case by blast
  qed
next
  assume "\<exists>gs. w = concat gs \<and> (\<forall>g\<in>set gs. g \<in> A)"
  then obtain gs where w: "w = concat gs" and gs: "\<forall>g\<in>set gs. g \<in> A" by blast
  from gs have "concat gs \<in> star A"
  proof (induction gs)
    case Nil
    show ?case by (simp add: star_nil)
  next
    case (Cons g gs)
    then have "g \<in> A" "concat gs \<in> star A" by simp_all
    then have "g @ concat gs \<in> star A" by (rule star_app)
    then show ?case by simp
  qed
  with w show "w \<in> star A" by simp
qed

lemma lang_thousands_rx: "lang thousands_rx = {g. thousands_group g}"
proof (intro set_eqI iffI)
  fix g assume "g \<in> lang thousands_rx"
  then obtain a b c where "g = CHR '','' # [a, b, c]" "is_digit a" "is_digit b" "is_digit c"
    unfolding thousands_rx_def chr_def lang_Cls_Seq by auto
  then have "thousands_group g" unfolding thousands_group_def by auto
  then show "g \<in> {g. thousands_group g}" by simp
next
  fix g assume "g \<in> {g. thousands_group g}"
  then obtain d where d: "g = CHR '','' # d" "length d = 3" "\<forall>c\<in>set d. is_digit c"
    by (auto simp: thousands_group_def)
  from d(2) obtain a b c where "d = [a, b, c]"
    by (auto simp: numeral_3_eq_3 length_Suc_conv)
  with d show "g \<in> lang thousands_rx"
    unfolding thousands_rx_def chr_def lang_Cls_Seq by auto
qed

lemma lang_fraction_rx: "lang fraction_rx = {f. decimal_fraction f}"
  unfolding fraction_rx_def chr_def lang_Cls_Seq lang_digits_rx decimal_fraction_def by auto

lemma lang_numeral_rx: "lang numeral_rx = {n. amount_numeral n}"
proof (intro set_eqI iffI)
  fix n assume "n \<in> lang numeral_rx"
  then obtain ds gg f where n: "n = ds @ gg @ f" "ds \<in> lang digits_rx" "gg \<in> star (lang thousands_rx)"
    "f \<in> insert [] (lang fraction_rx)"
    unfolding numeral_rx_def by auto
  from n(3) obtain gs where "gg = concat gs" "\<forall>g\<in>set gs. thousands_group g"
    unfolding star_concat lang_thousands_rx by auto
  with n have "amount_numeral n"
    unfolding amount_numeral_def lang_digits_rx lang_fraction_rx by blast
  then show "n \<in> {n. amount_numeral n}" by simp
next
  fix n assume "n \<in> {n. amount_numeral n}"
  then obtain ds gs f where n: "n = ds @ concat gs @ f" "digit_string ds" "\<forall>g\<in>set gs. thousands_group g"
    "f = [] \<or> decimal_fraction f"
    unfolding amount_numeral_def by auto
  have 1: "ds \<in> lang digits_rx" using n(2) by (simp add: lang_digits_rx)
  have 2: "concat gs \<in> star (lang thousands_rx)"
    using n(3) unfolding star_concat lang_thousands_rx by auto
  have 3: "f \<in> lang (Opt fraction_rx)" using n(4) by (auto simp: lang_fraction_rx)
  from 2 3 have "concat gs @ f \<in> lang (Seq (Star thousands_rx) (Opt fraction_rx))"
    unfolding lang.simps(2) lang.simps(5) by blast
  with 1 have "ds @ concat gs @ f \<in> lang (Seq digits_rx (Seq (Star thousands_rx) (Opt fraction_rx)))"
    unfolding lang.simps(2) [of digits_rx] by blast
  then show "n \<in> lang numeral_rx" by (simp add: n(1) numeral_rx_def)
qed

section \<open>Amount extraction\<close>

lemma amount_rx_sound:
  assumes "matcher amount_rx Some (s, None) = Some res"
  shows "\<exists>mk ws a post. s = mk @ ws @ a @ post \<and> mk \<in> lang currency_rx
           \<and> ws \<in> lang (Opt (Cls is_space)) \<and> a \<in> lang numeral_rx \<and> res = (post, Some a)"
proof -
  let ?k1 = "matcher (Seq (Opt (Cls is_space)) (Grp numeral_rx)) Some"
  let ?k2 = "matcher (Grp numeral_rx) Some"
  from assms have "matcher currency_rx ?k1 (s, None) = Some res"
    by (simp add: amount_rx_def)
  from matcher_sound [OF this] obtain mk s1 c1 where 1: "s = mk @ s1" "mk \<in> lang currency_rx"
    "?k1 (s1, c1) = Some res" by auto
  from 1(3) have "matcher (Opt (Cls is_space)) ?k2 (s1, c1) = Some res"
    by (simp only: matcher.simps(2))
  from matcher_sound [OF this] obtain ws s2 c2 where 2: "s1 = ws @ s2" "ws \<in> lang (Opt (Cls is_space))"
    "?k2 (s2, c2) = Some res" by auto
  let ?k3 = "\<lambda>st'. Some (fst st', Some (take (length s2 - length (fst st')) s2))"
  from 2(3) have "matcher numeral_rx ?k3 (s2, c2) = Some res" by simp
  from matcher_sound [OF this] obtain a s3 where 3: "s2 = a @ s3" "a \<in> lang numeral_rx"
    "res = (s3, Some (take (length s2 - length s3) s2))" by auto
  from 3(1) 3(3) have "res = (s3, Some a)" by simp
  with 1 2 3 have "s = mk @ ws @ a @ s3 \<and> mk \<in> lang currency_rx
           \<and> ws \<in> lang (Opt (Cls is_space)) \<and> a \<in> lang numeral_rx \<and> res = (s3, Some a)"
    by simp
  then show ?thesis by blast
qed

lemma amountMatch_sound:
  assumes "amountMatch b = Some g"
  shows "\<exists>a pre mk ws post. g = Some a \<and> b = pre @ mk @ ws @ a @ post \<and> is_currency_marker mk
           \<and> optional_space ws \<and> amount_numeral a"
proof -
  from assms obtain res where r: "regex_exec amount_rx b = Some res" "g = snd res"
    by (auto simp: amountMatch_def)
  from regex_exec_sound [OF r(1)] obtain pre rest where p: "b = pre @ rest"
    "matcher amount_rx Some (rest, None) = Some res" by blast
  from amount_rx_sound [OF p(2)] obtain mk ws a post where m: "rest = mk @ ws @ a @ post"
    "mk \<in> lang currency_rx" "ws \<in> lang (Opt (Cls is_space))" "a \<in> lang numeral_rx"
    "res = (post, Some a)" by blast
  from m(2-4) have "is_currency_marker mk" "optional_space ws" "amount_numeral a"
    by (simp_all add: lang_currency_rx optional_space_def lang_numeral_rx)
  moreover from r(2) m(5) have "g = Some a" by simp
  moreover from p(1) m(1) have "b = pre @ mk @ ws @ a @ post" by simp
  ultimately show ?thesis by blast
qed


lemma amountMatch_group: "amountMatch b = Some g \<Longrightarrow> \<exists>a. g = Some a"
  using amountMatch_sound by blast




text \<open>
  The pattern read on four bodies: two white-space characters after the marker, and a
  period after INR, are no match; a group of four digits after a comma gives its first
  three; the marker is found inside a word.
\<close>

lemma amount_readings:
  "amount_of ''Rs  500 debited'' = ''N/A''"
  "amount_of ''INR.500 debited'' = ''N/A''"
  "amount_of ''inr1,2345 debited'' = ''1,234''"
  "amount_of ''Hours 5 debited'' = ''5''"
  by code_simp+






section \<open>Malformed records\<close>

lemma Array_filter_kept_retained:
  "Array_filter retained xs = Inr kept \<Longrightarrow> \<forall>m\<in>set kept. retained m = Inr True"
  by (drule Array_filter_Inr) simp

text \<open>
  The one field the code reads without a default is the body: a record without a body
  raises a \<open>TypeError\<close>, in the filter's callback when it comes in a batch.
\<close>

lemma missing_body_raises:
  assumes "msg_body m = None"
  shows "retained m = Inl TypeError" and "parseMessageDetails now fmt m = Inl TypeError"
    and "parsedMessages now fmt (m # smsList) = Inl TypeError"
  using assms by (simp_all add: retained_def parseMessageDetails_def parsedMessages_def)

lemma Array_filter_raises:
  "x \<in> set xs \<Longrightarrow> p x = Inl e \<Longrightarrow> \<exists>e'. Array_filter p xs = Inl e'"
proof (induction xs)
  case Nil
  then show ?case by simp
next
  case (Cons y ys)
  show ?case
  proof (cases "p y")
    case (Inl e1)
    then show ?thesis by simp
  next
    case (Inr keep)
    have "x \<noteq> y"
    proof
      assume "x = y"
      with Cons.prems(2) Inr show False by simp
    qed
    with Cons.prems(1) have "x \<in> set ys" by simp
    from Cons.IH [OF this Cons.prems(2)] obtain e' where "Array_filter p ys = Inl e'" ..
    with Inr show ?thesis by simp
  qed
qed

lemma body_less_batch_raises:
  assumes "x \<in> set smsList" "msg_body x = None"
  shows "parsedMessages now fmt smsList = Inl TypeError"
proof -
  from assms(2) have r: "retained x = Inl TypeError" by (simp add: retained_def)
  from Array_filter_raises [of x smsList retained TypeError, OF assms(1) r] obtain e where "Array_filter retained smsList = Inl e" ..
  then have "parsedMessages now fmt smsList = Inl e" by (simp add: parsedMessages_def)
  moreover have "e = TypeError" by (cases e) simp
  ultimately show ?thesis by simp
qed

text \<open>
  A record without a body makes the filter's callback, and \<open>parseMessageDetails\<close>
  itself, raise a \<open>TypeError\<close>, and the exception leaves the classification of the batch.
\<close>

theorem missing_body_counterexample:
  "retained raw_no_body = Inl TypeError
   \<and> parseMessageDetails 1700000000000 blank_date raw_no_body = Inl TypeError
   \<and> parsedMessages 1700000000000 blank_date [raw_no_body] = Inl TypeError"
  by (simp add: retained_def parseMessageDetails_def parsedMessages_def raw_no_body_def)

text \<open>
  C8. A record that has a body, as every retained message has, is classified without an
  exception whatever its address and \<open>date_sent\<close> are: a missing address gives the
  sender \<open>Unknown\<close>, and a \<open>date_sent\<close> that is no number gives the relative age
  \<open>NaN day(s) ago\<close> and the date \<open>Invalid Date\<close>. Once the filter has returned the
  retained messages, mapping \<open>parseMessageDetails\<close> over them raises no exception, and
  a batch of records that all have a body is classified without an exception. A batch
  that holds a record without a body raises a \<open>TypeError\<close>.
\<close>

theorem malformed_record_degrades:
  "(retained m = Inr True \<longrightarrow> msg_body m \<noteq> None)
   \<and> (msg_body m \<noteq> None \<longrightarrow>
      (\<exists>r. parseMessageDetails now fmt m = Inr r
         \<and> (address m = None \<longrightarrow> sender r = ''Unknown'')
         \<and> (date_sent m = NaN \<longrightarrow> timeAgo r = ''NaN day(s) ago'' \<and> date r = ''Invalid Date'')))
   \<and> (Array_filter retained smsList = Inr kept \<longrightarrow>
        (\<exists>out. Array_map (parseMessageDetails now fmt) kept = Inr out
           \<and> parsedMessages now fmt smsList = Inr out))
   \<and> ((\<forall>x\<in>set smsList. msg_body x \<noteq> None) \<longrightarrow> (\<exists>out. parsedMessages now fmt smsList = Inr out))
   \<and> ((\<exists>x\<in>set smsList. msg_body x = None) \<longrightarrow> parsedMessages now fmt smsList = Inl TypeError)"
proof (intro conjI impI)
  assume "retained m = Inr True"
  then show "msg_body m \<noteq> None"
    by (auto simp: retained_def split: option.splits)
next
  assume "msg_body m \<noteq> None"
  then obtain b where "msg_body m = Some b" by auto
  then show "\<exists>r. parseMessageDetails now fmt m = Inr r
         \<and> (address m = None \<longrightarrow> sender r = ''Unknown'')
         \<and> (date_sent m = NaN \<longrightarrow> timeAgo r = ''NaN day(s) ago'' \<and> date r = ''Invalid Date'')"
    by (simp add: parseMessageDetails_def address_or_Unknown_def calculateTimeAgo_NaN toLocaleDateString_def)
next
  assume k: "Array_filter retained smsList = Inr kept"
  have "\<forall>x\<in>set kept. \<exists>y. parseMessageDetails now fmt x = Inr y"
  proof
    fix x assume "x \<in> set kept"
    with Array_filter_kept_retained [OF k] have "retained x = Inr True" by simp
    then obtain b where "msg_body x = Some b"
      by (auto simp: retained_def split: option.splits)
    then show "\<exists>y. parseMessageDetails now fmt x = Inr y"
      using parse_Inr by blast
  qed
  then obtain out where "Array_map (parseMessageDetails now fmt) kept = Inr out"
    using Array_map_total by blast
  with k show "\<exists>out. Array_map (parseMessageDetails now fmt) kept = Inr out
           \<and> parsedMessages now fmt smsList = Inr out"
    by (simp add: parsedMessages_def)
next
  assume "\<forall>x\<in>set smsList. msg_body x \<noteq> None"
  from parsedMessages_kept [OF this, of now fmt]
  show "\<exists>out. parsedMessages now fmt smsList = Inr out" by blast
next
  assume "\<exists>x\<in>set smsList. msg_body x = None"
  then obtain x where "x \<in> set smsList" "msg_body x = None" by blast
  then show "parsedMessages now fmt smsList = Inl TypeError"
    by (rule body_less_batch_raises)
qed

theorem malformed_record_degrades_witness:
  "retained raw_credit = Inr True \<and> msg_body raw_credit \<noteq> None
   \<and> address raw_credit = None \<and> date_sent raw_credit = NaN
   \<and> (\<exists>r. parseMessageDetails 0 (\<lambda>t. []) raw_credit = Inr r \<and> sender r = ''Unknown''
         \<and> timeAgo r = ''NaN day(s) ago'' \<and> date r = ''Invalid Date'')
   \<and> Array_filter retained [raw_credit, raw_other] = Inr [raw_credit]
   \<and> (\<exists>out. parsedMessages 0 (\<lambda>t. []) [raw_credit, raw_other] = Inr out)
   \<and> msg_body raw_no_body = None
   \<and> parsedMessages 0 (\<lambda>t. []) [raw_credit, raw_no_body, raw_other] = Inl TypeError"
proof -
  have a: "address raw_credit = None" "date_sent raw_credit = NaN"
    by (simp_all add: raw_credit_def)
  have b: "msg_body raw_credit \<noteq> None"
    by (simp add: raw_credit_def)
  have f: "Array_filter retained [raw_credit, raw_other] = Inr [raw_credit]"
    by (simp add: raw_retained)
  have n: "msg_body raw_no_body = None" by (simp add: raw_no_body_def)
  then have e: "\<exists>x\<in>set [raw_credit, raw_no_body, raw_other]. msg_body x = None" by simp
  have 1: "\<exists>r. parseMessageDetails 0 (\<lambda>t. []) raw_credit = Inr r \<and> sender r = ''Unknown''
         \<and> timeAgo r = ''NaN day(s) ago'' \<and> date r = ''Invalid Date''"
    using malformed_record_degrades [of raw_credit 0 "\<lambda>t. []", THEN conjunct2, THEN conjunct1, THEN mp, OF b] a
    by simp
  have 2: "\<exists>out. parsedMessages 0 (\<lambda>t. []) [raw_credit, raw_other] = Inr out"
    using malformed_record_degrades [of raw_credit 0 "\<lambda>t. []" "[raw_credit, raw_other]" "[raw_credit]",
      THEN conjunct2, THEN conjunct2, THEN conjunct1, THEN mp, OF f]
    by blast
  have 3: "parsedMessages 0 (\<lambda>t. []) [raw_credit, raw_no_body, raw_other] = Inl TypeError"
    by (rule malformed_record_degrades [of raw_credit 0 "\<lambda>t. []" "[raw_credit, raw_no_body, raw_other]" "[]",
      THEN conjunct2, THEN conjunct2, THEN conjunct2, THEN conjunct2, THEN mp, OF e])
  from raw_retained(3) b a f 1 2 n 3 show ?thesis by (intro conjI)
qed

end
